theory Spec2Isabelle
  imports
    Main
    "HOL-Library.AList"
    "HOL-Library.Char_ord"
    "HOL-Library.List_Lexorder"
begin

section \<open>The cache of cache.go as a state machine\<close>

text \<open>
  The Go package keeps two maps, each owned by one goroutine (\<^verbatim>\<open>loopItemOps\<close>,
  \<^verbatim>\<open>loopExpiryOps\<close>) that receives closures on an unbuffered channel and applies them to
  its map one at a time. Every closure of the source is one constructor of \<open>item_op\<close> or
  \<open>expiry_op\<close> below, and its body is the matching equation of \<open>itemOp\<close> or \<open>expiryOp\<close>.

  A send on a lane is modelled as running the closure at once. A lane runs its closures
  in the order it receives them and takes the next one only when the last has returned,
  the two lanes work on separate maps, and a map is read only through its lane; so running
  each closure at the place of its send shows the same maps to every reader.

  Time is abstracted: a timer that has been created and neither stopped nor fired may fire
  at any later step (event \<open>Fire\<close>), which covers every duration. \<^verbatim>\<open>ClearEvery\<close> is a
  goroutine that calls \<^verbatim>\<open>Clear\<close> again and again; in a schedule it is the event \<open>Go Clear\<close>,
  any number of times.
\<close>

subsection \<open>Data\<close>

type_synonym key = string

text \<open>\<^verbatim>\<open>type T interface{}\<close>: the nil interface or a value.\<close>

datatype 'a T = TNil | TVal 'a

text \<open>
  A caller-supplied \<^verbatim>\<open>func(T)\<close> given to \<^verbatim>\<open>AfterFunc\<close>, named by a number. It either
  returns or panics when invoked.
\<close>

datatype callback = Returns nat | Panics nat

text \<open>
  A \<^verbatim>\<open>*time.Timer\<close> made by \<^verbatim>\<open>time.AfterFunc\<close>. \<open>t_key\<close> and \<open>t_after\<close> are the variables its
  function captures: the key, and for \<^verbatim>\<open>AfterFunc\<close> the callback with the value handed to
  the option. \<^verbatim>\<open>Stop\<close> turns a pending timer into a stopped one and leaves a fired or
  stopped one as it is.
\<close>

datatype timer_state = Pending | Stopped | Fired

record 'a timer =
  t_expiry :: int
  t_key :: key
  t_after :: "(callback \<times> 'a T) option"
  t_state :: timer_state

text \<open>The closures sent on \<^verbatim>\<open>c.expiryOps\<close> and on \<^verbatim>\<open>c.itemOps\<close>.\<close>

datatype 'a expiry_op =
    StopAndDelete key
  | ExpireOp int key
  | AfterFuncOp int callback key "'a T"

datatype 'a item_op =
    SetItem key "'a T"
  | ClearItems
  | DeleteItem key
  | CopyItems

datatype 'a op = ExpiryOps "'a expiry_op" | ItemOps "'a item_op"

text \<open>What a goroutine does next: send a closure to a lane, or call a callback.\<close>

datatype 'a instr = Send "'a op" | CallFunc callback "'a T"

text \<open>
  The state. \<open>items\<close> and \<open>expiries\<close> are the two Go maps, as association lists (the list
  order stands for the unspecified iteration order of a Go map); the values of \<open>expiries\<close>
  are timers, as indices into \<open>timers\<close>. \<open>copies\<close> holds the maps allocated by \<^verbatim>\<open>Items\<close>, in
  allocation order. \<open>goroutines\<close> holds, for every goroutine started so far, the
  instructions it has still to run. \<open>calls\<close> records the callback invocations that
  returned.
\<close>

record 'a cache =
  items :: "(key \<times> 'a T) list"
  expiries :: "(key \<times> nat) list"
  timers :: "'a timer list"
  copies :: "(key \<times> 'a T) list list"
  goroutines :: "'a instr list list"
  calls :: "(callback \<times> 'a T) list"

definition New :: "'a cache" where
  "New = \<lparr>items = [], expiries = [], timers = [], copies = [], goroutines = [], calls = []\<rparr>"

subsection \<open>The expiry lane\<close>

definition stopTimer :: "nat \<Rightarrow> 'a timer list \<Rightarrow> 'a timer list" where
  "stopTimer i ts =
     (if i < length ts \<and> t_state (ts ! i) = Pending
      then ts[i := (ts ! i)\<lparr>t_state := Stopped\<rparr>] else ts)"

definition stopOld :: "key \<Rightarrow> 'a cache \<Rightarrow> 'a timer list" where
  "stopOld key c =
     (case map_of (expiries c) key of
        Some timer \<Rightarrow> stopTimer timer (timers c)
      | None \<Rightarrow> timers c)"

fun expiryOp :: "'a expiry_op \<Rightarrow> 'a cache \<Rightarrow> 'a cache" where
  "expiryOp (StopAndDelete key) c =
     (case map_of (expiries c) key of
        Some timer \<Rightarrow>
          c\<lparr>timers := stopTimer timer (timers c),
            expiries := AList.delete key (expiries c)\<rparr>
      | None \<Rightarrow> c)"
| "expiryOp (ExpireOp expiry key) c =
     (let ts = stopOld key c in
      c\<lparr>timers := ts @ [\<lparr>t_expiry = expiry, t_key = key, t_after = None, t_state = Pending\<rparr>],
        expiries := AList.update key (length ts) (expiries c)\<rparr>)"
| "expiryOp (AfterFuncOp expiry afterFunc key val) c =
     (let ts = stopOld key c in
      c\<lparr>timers := ts @ [\<lparr>t_expiry = expiry, t_key = key,
                         t_after = Some (afterFunc, val), t_state = Pending\<rparr>],
        expiries := AList.update key (length ts) (expiries c)\<rparr>)"

subsection \<open>The item lane\<close>

fun itemOp :: "'a item_op \<Rightarrow> 'a cache \<Rightarrow> 'a cache" where
  "itemOp (SetItem key val) c = c\<lparr>items := AList.update key val (items c)\<rparr>"
| "itemOp ClearItems c =
     c\<lparr>items := fold (\<lambda>key m. AList.delete key m) (map fst (items c)) (items c)\<rparr>"
| "itemOp (DeleteItem key) c =
     (case map_of (items c) key of
        Some _ \<Rightarrow> c\<lparr>items := AList.delete key (items c)\<rparr>
      | None \<Rightarrow> c)"
| "itemOp CopyItems c =
     c\<lparr>copies := copies c @
        [fold (\<lambda>(key, val) cp. AList.update key val cp) (items c) []]\<rparr>"

fun send :: "'a op \<Rightarrow> 'a cache \<Rightarrow> 'a cache" where
  "send (ExpiryOps f) c = expiryOp f c"
| "send (ItemOps f) c = itemOp f c"

subsection \<open>The public operations\<close>

text \<open>
  A writing operation is the list of closures it sends, in program order. \<open>call\<close> runs one
  to its end with nothing else in between.
\<close>

datatype SetOption = Expire int | AfterFunc int callback

fun applyOption :: "SetOption \<Rightarrow> key \<Rightarrow> 'a T \<Rightarrow> 'a op" where
  "applyOption (Expire expiry) key val = ExpiryOps (ExpireOp expiry key)"
| "applyOption (AfterFunc expiry afterFunc) key val =
     ExpiryOps (AfterFuncOp expiry afterFunc key val)"

definition Set :: "key \<Rightarrow> 'a T \<Rightarrow> SetOption list \<Rightarrow> 'a op list" where
  "Set key val options =
     ExpiryOps (StopAndDelete key) # ItemOps (SetItem key val) #
     map (\<lambda>option. applyOption option key val) options"

definition Clear :: "'a op list" where
  "Clear = [ItemOps ClearItems]"

definition Delete :: "key \<Rightarrow> 'a op list" where
  "Delete key = [ExpiryOps (StopAndDelete key), ItemOps (DeleteItem key)]"

definition call :: "'a op list \<Rightarrow> 'a cache \<Rightarrow> 'a cache" where
  "call p c = fold send p c"

text \<open>The reading operations; each is one closure on the item lane.\<close>

definition Get :: "key \<Rightarrow> 'a cache \<Rightarrow> 'a T" where
  "Get key c = (case map_of (items c) key of Some v \<Rightarrow> v | None \<Rightarrow> TNil)"

definition GetOK :: "key \<Rightarrow> 'a cache \<Rightarrow> 'a T \<times> bool" where
  "GetOK key c = (case map_of (items c) key of Some v \<Rightarrow> (v, True) | None \<Rightarrow> (TNil, False))"

definition IsEmpty :: "'a cache \<Rightarrow> bool" where
  "IsEmpty c = (length (items c) = 0)"

definition Size :: "'a cache \<Rightarrow> int" where
  "Size c = int (length (items c))"

definition Keys :: "'a cache \<Rightarrow> key list" where
  "Keys c = sort (fold (\<lambda>(k, _) keys. keys @ [k]) (items c) [])"

text \<open>
  \<^verbatim>\<open>Items\<close> hands back a reference to a map. A reference is either the map the item lane
  owns or the n-th map allocated by \<^verbatim>\<open>Items\<close>.
\<close>

datatype ref = Live | Copy nat

definition deref :: "'a cache \<Rightarrow> ref \<Rightarrow> (key \<times> 'a T) list option" where
  "deref c r =
     (case r of
        Live \<Rightarrow> Some (items c)
      | Copy n \<Rightarrow> (if n < length (copies c) then Some (copies c ! n) else None))"

definition Items :: "'a cache \<Rightarrow> ref \<times> 'a cache" where
  "Items c = (Copy (length (copies c)), itemOp CopyItems c)"

subsection \<open>Timers and goroutines\<close>

text \<open>
  The function handed to \<^verbatim>\<open>time.AfterFunc\<close>: \<^verbatim>\<open>c.Delete(key)\<close>, and for the \<^verbatim>\<open>AfterFunc\<close>
  option \<^verbatim>\<open>afterFunc(val)\<close> after it. The Go runtime runs it in a goroutine of its own when
  the timer fires.
\<close>

definition timerFunc :: "'a timer \<Rightarrow> 'a instr list" where
  "timerFunc t =
     map Send (Delete (t_key t)) @
     (case t_after t of
        None \<Rightarrow> []
      | Some (afterFunc, val) \<Rightarrow> [CallFunc afterFunc val])"

text \<open>
  A panic that nothing recovers ends the Go process; the source has no \<^verbatim>\<open>recover\<close>. So an
  instruction yields either the next state or the panic.
\<close>

datatype 'a panic = Panic callback "'a T"

fun exec :: "'a instr \<Rightarrow> 'a cache \<Rightarrow> 'a panic + 'a cache" where
  "exec (Send f) c = Inr (send f c)"
| "exec (CallFunc afterFunc val) c =
     (case afterFunc of
        Returns n \<Rightarrow> Inr (c\<lparr>calls := calls c @ [(afterFunc, val)]\<rparr>)
      | Panics n \<Rightarrow> Inl (Panic afterFunc val))"

text \<open>
  What can happen next: a caller starts an operation in a goroutine (\<open>Go\<close>), a pending
  timer fires and its function starts in a new goroutine (\<open>Fire\<close>), or a goroutine runs
  its next instruction (\<open>Step\<close>). A stopped or fired timer does not fire. A schedule is a
  list of such events, so callers and timer goroutines interleave in every possible way;
  \<open>run\<close> stops at the first panic.
\<close>

datatype 'a event = Go "'a op list" | Fire nat | Step nat

fun step :: "'a event \<Rightarrow> 'a cache \<Rightarrow> 'a panic + 'a cache" where
  "step (Go p) c = Inr (c\<lparr>goroutines := goroutines c @ [map Send p]\<rparr>)"
| "step (Fire t) c =
     (if t < length (timers c) \<and> t_state (timers c ! t) = Pending
      then Inr (c\<lparr>timers := (timers c)[t := (timers c ! t)\<lparr>t_state := Fired\<rparr>],
                  goroutines := goroutines c @ [timerFunc (timers c ! t)]\<rparr>)
      else Inr c)"
| "step (Step g) c =
     (if g < length (goroutines c)
      then (case goroutines c ! g of
              [] \<Rightarrow> Inr c
            | i # rest \<Rightarrow> exec i (c\<lparr>goroutines := (goroutines c)[g := rest]\<rparr>))
      else Inr c)"

fun run :: "'a event list \<Rightarrow> 'a cache \<Rightarrow> 'a panic + 'a cache" where
  "run [] c = Inr c"
| "run (e # es) c = (case step e c of Inl p \<Rightarrow> Inl p | Inr c' \<Rightarrow> run es c')"

subsection \<open>Expiry handles\<close>



subsection \<open>Leaving a key alone\<close>





subsection \<open>Example states\<close>

text \<open>The keys "0" to "4" set in the order 3, 1, 4, 0, 2, as in \<^verbatim>\<open>TestKeys\<close> and \<^verbatim>\<open>TestItems\<close>.\<close>

definition five :: "int cache" where
  "five =
     call (Set ''2'' (TVal 2) []) (call (Set ''0'' (TVal 0) []) (call (Set ''4'' (TVal 4) [])
       (call (Set ''1'' (TVal 1) []) (call (Set ''3'' (TVal 3) []) New))))"

section \<open>Basic facts\<close>

subsection \<open>Which fields a closure touches\<close>

lemma stopTimer_length [simp]: "length (stopTimer i ts) = length ts"
  by (simp add: stopTimer_def)

lemma stopTimer_key [simp]: "t_key (stopTimer i ts ! j) = t_key (ts ! j)"
  by (simp add: stopTimer_def nth_list_update)

lemma stopTimer_after [simp]: "t_after (stopTimer i ts ! j) = t_after (ts ! j)"
  by (simp add: stopTimer_def nth_list_update)

lemma stopTimer_state:
  "t_state (stopTimer i ts ! j) =
     (if j = i \<and> i < length ts \<and> t_state (ts ! i) = Pending then Stopped
      else t_state (ts ! j))"
  by (simp add: stopTimer_def nth_list_update)

lemma stopOld_length [simp]: "length (stopOld key c) = length (timers c)"
  by (simp add: stopOld_def split: option.split)

lemma stopOld_key [simp]: "t_key (stopOld key c ! j) = t_key (timers c ! j)"
  by (simp add: stopOld_def split: option.split)

lemma stopOld_after [simp]: "t_after (stopOld key c ! j) = t_after (timers c ! j)"
  by (simp add: stopOld_def split: option.split)

lemma set_state_key [simp]:
  "t_key (ts[u := (ts ! u)\<lparr>t_state := s\<rparr>] ! t) = t_key (ts ! t)"
  by (cases "u < length ts") (simp_all add: nth_list_update list_update_beyond not_less)

lemma set_state_after [simp]:
  "t_after (ts[u := (ts ! u)\<lparr>t_state := s\<rparr>] ! t) = t_after (ts ! t)"
  by (cases "u < length ts") (simp_all add: nth_list_update list_update_beyond not_less)

lemma set_state_state:
  "t_state (ts[u := (ts ! u)\<lparr>t_state := s\<rparr>] ! t) =
     (if t = u \<and> u < length ts then s else t_state (ts ! t))"
  by (cases "u < length ts") (simp_all add: nth_list_update list_update_beyond not_less)

lemma items_expiryOp [simp]: "items (expiryOp e c) = items c"
  by (cases e) (simp_all add: Let_def split: option.split)

lemma copies_expiryOp [simp]: "copies (expiryOp e c) = copies c"
  by (cases e) (simp_all add: Let_def split: option.split)

lemma goroutines_expiryOp [simp]: "goroutines (expiryOp e c) = goroutines c"
  by (cases e) (simp_all add: Let_def split: option.split)

lemma calls_expiryOp [simp]: "calls (expiryOp e c) = calls c"
  by (cases e) (simp_all add: Let_def split: option.split)

lemma expiries_itemOp [simp]: "expiries (itemOp i c) = expiries c"
  by (cases i) (simp_all split: option.split)

lemma timers_itemOp [simp]: "timers (itemOp i c) = timers c"
  by (cases i) (simp_all split: option.split)

lemma goroutines_itemOp [simp]: "goroutines (itemOp i c) = goroutines c"
  by (cases i) (simp_all split: option.split)

lemma calls_itemOp [simp]: "calls (itemOp i c) = calls c"
  by (cases i) (simp_all split: option.split)

lemma goroutines_send [simp]: "goroutines (send f c) = goroutines c"
  by (cases f) simp_all

lemma calls_send [simp]: "calls (send f c) = calls c"
  by (cases f) simp_all

lemma goroutines_call [simp]: "goroutines (call p c) = goroutines c"
  unfolding call_def by (induction p arbitrary: c) simp_all

lemma calls_call [simp]: "calls (call p c) = calls c"
  unfolding call_def by (induction p arbitrary: c) simp_all

lemma send_goroutines_update:
  "send f (c\<lparr>goroutines := G\<rparr>) = (send f c)\<lparr>goroutines := G\<rparr>"
proof (cases f)
  case (ExpiryOps e)
  then show ?thesis
    by (cases e) (simp_all add: Let_def stopOld_def split: option.split)
next
  case (ItemOps i)
  then show ?thesis
    by (cases i) (simp_all split: option.split)
qed

lemma call_goroutines_update:
  "call p (c\<lparr>goroutines := G\<rparr>) = (call p c)\<lparr>goroutines := G\<rparr>"
  unfolding call_def
  by (induction p arbitrary: c) (simp_all add: send_goroutines_update)

subsection \<open>The loops over a map\<close>

lemma fold_delete_all:
  "fst ` set m \<subseteq> set ks \<Longrightarrow> fold (\<lambda>key m. AList.delete key m) ks m = []"
proof (induction ks arbitrary: m)
  case Nil
  then show ?case by simp
next
  case (Cons k ks)
  have "fst ` set (AList.delete k m) \<subseteq> set ks"
    using Cons.prems by (auto simp: AList.delete_eq)
  then show ?case using Cons.IH by simp
qed

lemma items_Clear: "items (call Clear c) = []"
  by (simp add: call_def Clear_def fold_delete_all)

lemma fold_keys:
  "fold (\<lambda>(k, _) keys. keys @ [k]) xs acc = acc @ map fst xs"
  by (induction xs arbitrary: acc) (auto split: prod.splits)

lemma Keys_sort: "Keys c = sort (map fst (items c))"
  by (simp add: Keys_def fold_keys)

lemma snd_GetOK: "snd (GetOK k c) = (k \<in> fst ` set (items c))"
proof (cases "map_of (items c) k")
  case None
  then have "k \<notin> fst ` set (items c)" by (simp add: map_of_eq_None_iff)
  with None show ?thesis by (simp add: GetOK_def)
next
  case (Some v)
  then have "k \<in> dom (map_of (items c))" by blast
  then have "k \<in> fst ` set (items c)" by (simp add: dom_map_of_conv_image_fst)
  with Some show ?thesis by (simp add: GetOK_def)
qed

lemma fold_update_copy:
  "distinct (map fst xs) \<Longrightarrow>
   map_of (fold (\<lambda>(key, val) cp. AList.update key val cp) xs acc) = map_of acc ++ map_of xs"
proof (induction xs arbitrary: acc)
  case Nil
  then show ?case by simp
next
  case (Cons x xs)
  obtain k v where x: "x = (k, v)" by (cases x)
  have notin: "k \<notin> dom (map_of xs)"
    using Cons.prems x by (simp add: dom_map_of_conv_image_fst)
  have "map_of (fold (\<lambda>(key, val) cp. AList.update key val cp) (x # xs) acc)
        = map_of (AList.update k v acc) ++ map_of xs"
    using Cons.IH [of "AList.update k v acc"] Cons.prems x by simp
  also have "\<dots> = (map_of acc)(k \<mapsto> v) ++ map_of xs"
    by (simp only: update_conv')
  also have "\<dots> = (map_of acc ++ map_of xs)(k \<mapsto> v)"
    using notin by (rule map_add_upd_left)
  also have "\<dots> = map_of acc ++ (map_of xs)(k \<mapsto> v)"
    by (simp only: map_add_upd)
  also have "\<dots> = map_of acc ++ map_of (x # xs)"
    unfolding x by simp
  finally show ?case .
qed

lemma five_eq: "five = \<lparr>items = [(''3'', TVal 3), (''1'', TVal 1), (''4'', TVal 4), (''0'', TVal 0),
     (''2'', TVal 2)], expiries = [], timers = [], copies = [], goroutines = [], calls = []\<rparr>"
  by (simp add: five_def call_def Set_def New_def)

subsection \<open>Single closures\<close>



lemma expiries_StopAndDelete:
  "map_of (expiries (expiryOp (StopAndDelete k) c)) k = None"
  by (simp add: delete_conv' split: option.split)

lemma timers_StopAndDelete_length [simp]:
  "length (timers (expiryOp (StopAndDelete k) c)) = length (timers c)"
  by (simp split: option.split)

lemma timers_Set_AfterFunc:
  "timers (call (Set k v [AfterFunc d f]) c) =
     timers (expiryOp (StopAndDelete k) c) @
     [\<lparr>t_expiry = d, t_key = k, t_after = Some (f, v), t_state = Pending\<rparr>]"
proof -
  let ?c = "itemOp (SetItem k v) (expiryOp (StopAndDelete k) c)"
  have "map_of (expiries ?c) k = None"
    using expiries_StopAndDelete [of k c] by simp
  then have "stopOld k ?c = timers (expiryOp (StopAndDelete k) c)"
    by (simp add: stopOld_def)
  then show ?thesis
    by (simp add: call_def Set_def Let_def del: expiryOp.simps(1) itemOp.simps)
qed


lemma timer_frame_send:
  "t < length (timers c) \<Longrightarrow>
   t < length (timers (send f c)) \<and> t_key (timers (send f c) ! t) = t_key (timers c ! t) \<and>
   t_after (timers (send f c) ! t) = t_after (timers c ! t)"
proof (cases f)
  case (ExpiryOps e)
  assume "t < length (timers c)"
  with ExpiryOps show ?thesis
    by (cases e) (auto simp: Let_def nth_append split: option.split)
next
  case (ItemOps i)
  assume "t < length (timers c)"
  with ItemOps show ?thesis by simp
qed

lemma copies_itemOp:
  "n < length (copies c) \<Longrightarrow>
   n < length (copies (itemOp i c)) \<and> copies (itemOp i c) ! n = copies c ! n"
  by (cases i) (simp_all add: nth_append split: option.split)

lemma copies_send:
  "n < length (copies c) \<Longrightarrow>
   n < length (copies (send f c)) \<and> copies (send f c) ! n = copies c ! n"
  by (cases f) (simp_all add: copies_itemOp)

lemma copies_call:
  "n < length (copies c) \<Longrightarrow>
   n < length (copies (call p c)) \<and> copies (call p c) ! n = copies c ! n"
  unfolding call_def
  by (induction p arbitrary: c) (simp_all add: copies_send)

lemma distinct_items_send:
  assumes "distinct (map fst (items c))"
  shows "distinct (map fst (items (send f c)))"
proof (cases f)
  case (ExpiryOps e)
  with assms show ?thesis by simp
next
  case (ItemOps i)
  with assms show ?thesis
    by (cases i) (simp_all add: distinct_update distinct_delete fold_delete_all split: option.split)
qed

lemma distinct_items_call:
  "distinct (map fst (items c)) \<Longrightarrow> distinct (map fst (items (call p c)))"
  unfolding call_def by (induction p arbitrary: c) (simp_all add: distinct_items_send)

subsection \<open>Schedules\<close>

text \<open>
  A property that every closure keeps, that firing a timer keeps, and that does not look at
  the goroutines or at the call record, holds along every schedule.
\<close>

lemma run_append:
  "run (es @ es') c = (case run es c of Inl p \<Rightarrow> Inl p | Inr c' \<Rightarrow> run es' c')"
  by (induction es arbitrary: c) (simp_all split: sum.split)

lemma run_preserves:
  assumes r: "run es c = Inr c'" and P: "P c"
    and snd: "\<And>c f. P c \<Longrightarrow> P (send f c)"
    and gor: "\<And>c G. P c \<Longrightarrow> P (c\<lparr>goroutines := G\<rparr>)"
    and cal: "\<And>c C. P c \<Longrightarrow> P (c\<lparr>calls := C\<rparr>)"
    and fir: "\<And>c t. P c \<Longrightarrow> t < length (timers c) \<Longrightarrow> t_state (timers c ! t) = Pending \<Longrightarrow>
               P (c\<lparr>timers := (timers c)[t := (timers c ! t)\<lparr>t_state := Fired\<rparr>]\<rparr>)"
  shows "P c'"
  using r P
proof (induction es arbitrary: c)
  case Nil
  then show ?case by simp
next
  case (Cons e es)
  from Cons.prems(1) obtain c1 where s: "step e c = Inr c1" and r1: "run es c1 = Inr c'"
    by (auto split: sum.splits)
  have "P c1"
  proof (cases e)
    case (Go p)
    with s gor [OF Cons.prems(2)] show ?thesis by auto
  next
    case (Fire t)
    show ?thesis
    proof (cases "t < length (timers c) \<and> t_state (timers c ! t) = Pending")
      case True
      then have "P (c\<lparr>timers := (timers c)[t := (timers c ! t)\<lparr>t_state := Fired\<rparr>]\<rparr>)"
        using fir [OF Cons.prems(2)] by simp
      from gor [OF this, of "goroutines c @ [timerFunc (timers c ! t)]"] s Fire True
      show ?thesis by auto
    next
      case False
      with s Fire Cons.prems(2) show ?thesis by auto
    qed
  next
    case (Step g)
    show ?thesis
    proof (cases "g < length (goroutines c)")
      case False
      with s Step Cons.prems(2) show ?thesis by simp
    next
      case True
      show ?thesis
      proof (cases "goroutines c ! g")
        case Nil
        with s Step True Cons.prems(2) show ?thesis by simp
      next
        case (Cons i rest)
        let ?c = "c\<lparr>goroutines := (goroutines c)[g := rest]\<rparr>"
        have Pc: "P ?c" by (rule gor [OF Cons.prems(2)])
        from s Step True Cons have ex: "exec i ?c = Inr c1" by simp
        show ?thesis
        proof (cases i)
          case (Send f)
          with ex snd [OF Pc, of f] show ?thesis by auto
        next
          case (CallFunc af v)
          with ex cal [OF Pc, of "calls ?c @ [(af, v)]"] show ?thesis
            by (auto split: callback.splits)
        qed
      qed
    qed
  qed
  from Cons.IH [OF r1 this] show ?case .
qed

lemma copies_exec:
  "exec i c = Inr c' \<Longrightarrow> n < length (copies c) \<Longrightarrow>
   n < length (copies c') \<and> copies c' ! n = copies c ! n"
  by (cases i) (auto simp: copies_send split: callback.splits)

lemma copies_step:
  "step e c = Inr c' \<Longrightarrow> n < length (copies c) \<Longrightarrow>
   n < length (copies c') \<and> copies c' ! n = copies c ! n"
proof (cases e)
  case (Go p)
  then show "step e c = Inr c' \<Longrightarrow> n < length (copies c) \<Longrightarrow> ?thesis" by auto
next
  case (Fire t)
  then show "step e c = Inr c' \<Longrightarrow> n < length (copies c) \<Longrightarrow> ?thesis"
    by (auto split: if_splits)
next
  case (Step g)
  assume st: "step e c = Inr c'" and n: "n < length (copies c)"
  show ?thesis
  proof (cases "g < length (goroutines c)")
    case False
    with st Step n show ?thesis by simp
  next
    case True
    show ?thesis
    proof (cases "goroutines c ! g")
      case Nil
      with st Step True n show ?thesis by simp
    next
      case (Cons i rest)
      with st Step True
      have "exec i (c\<lparr>goroutines := (goroutines c)[g := rest]\<rparr>) = Inr c'" by simp
      from copies_exec [OF this] n show ?thesis by simp
    qed
  qed
qed

lemma copies_run:
  "run es c = Inr c' \<Longrightarrow> n < length (copies c) \<Longrightarrow>
   n < length (copies c') \<and> copies c' ! n = copies c ! n"
proof (induction es arbitrary: c)
  case Nil
  then show ?case by simp
next
  case (Cons e es)
  from Cons.prems(1) obtain c1 where s: "step e c = Inr c1" and r: "run es c1 = Inr c'"
    by (auto split: sum.splits)
  from copies_step [OF s Cons.prems(2)] Cons.IH [OF r] show ?case by simp
qed

lemma timer_frame_run:
  assumes "run es c = Inr c'" and "t < length (timers c)"
  shows "t < length (timers c') \<and> t_key (timers c' ! t) = t_key (timers c ! t) \<and>
         t_after (timers c' ! t) = t_after (timers c ! t)"
proof (rule run_preserves [where P = "\<lambda>x. t < length (timers x) \<and>
          t_key (timers x ! t) = t_key (timers c ! t) \<and>
          t_after (timers x ! t) = t_after (timers c ! t)", OF assms(1)])
  show "t < length (timers c) \<and> t_key (timers c ! t) = t_key (timers c ! t) \<and>
        t_after (timers c ! t) = t_after (timers c ! t)" using assms by simp
next
  fix x :: "'a cache" and f
  assume "t < length (timers x) \<and> t_key (timers x ! t) = t_key (timers c ! t) \<and>
          t_after (timers x ! t) = t_after (timers c ! t)"
  then show "t < length (timers (send f x)) \<and>
        t_key (timers (send f x) ! t) = t_key (timers c ! t) \<and>
        t_after (timers (send f x) ! t) = t_after (timers c ! t)"
    using timer_frame_send [of t x f] by simp
next
  fix x :: "'a cache" and u
  assume "t < length (timers x) \<and> t_key (timers x ! t) = t_key (timers c ! t) \<and>
          t_after (timers x ! t) = t_after (timers c ! t)"
  then show "t < length (timers (x\<lparr>timers := (timers x)[u := (timers x ! u)\<lparr>t_state := Fired\<rparr>]\<rparr>)) \<and>
        t_key (timers (x\<lparr>timers := (timers x)[u := (timers x ! u)\<lparr>t_state := Fired\<rparr>]\<rparr>) ! t)
          = t_key (timers c ! t) \<and>
        t_after (timers (x\<lparr>timers := (timers x)[u := (timers x ! u)\<lparr>t_state := Fired\<rparr>]\<rparr>) ! t)
          = t_after (timers c ! t)"
    by simp
qed simp_all


lemma distinct_items_run:
  assumes "run es c = Inr c'" and "distinct (map fst (items c))"
  shows "distinct (map fst (items c'))"
  by (rule run_preserves [where P = "\<lambda>x. distinct (map fst (items x))", OF assms])
     (simp_all add: distinct_items_send)

text \<open>A goroutine that runs with nothing in between does what \<open>call\<close> does.\<close>

lemma run_goroutine_sends:
  "goroutines c = G @ [map Send p @ rest] \<Longrightarrow>
   run (replicate (length p) (Step (length G))) c = Inr ((call p c)\<lparr>goroutines := G @ [rest]\<rparr>)"
proof (induction p arbitrary: c)
  case Nil
  then show ?case by (simp add: call_def)
next
  case (Cons f p)
  let ?c = "(send f c)\<lparr>goroutines := G @ [map Send p @ rest]\<rparr>"
  have "step (Step (length G)) c = Inr ?c"
    using Cons.prems by (simp add: send_goroutines_update)
  moreover have "run (replicate (length p) (Step (length G))) ?c
                 = Inr ((call p ?c)\<lparr>goroutines := G @ [rest]\<rparr>)"
    by (rule Cons.IH) simp
  ultimately show ?case
    by (simp add: call_goroutines_update) (simp add: call_def)
qed

lemma run_fired_timer:
  assumes "t < length (timers c)" and "t_state (timers c ! t) = Pending"
  shows "run [Fire t, Step (length (goroutines c)), Step (length (goroutines c))] c =
         Inr ((call (Delete (t_key (timers c ! t)))
                 (c\<lparr>timers := (timers c)[t := (timers c ! t)\<lparr>t_state := Fired\<rparr>]\<rparr>))
              \<lparr>goroutines := goroutines c @
                 [case t_after (timers c ! t) of None \<Rightarrow> []
                  | Some (afterFunc, val) \<Rightarrow> [CallFunc afterFunc val]]\<rparr>)"
proof -
  let ?G = "goroutines c"
  let ?k = "t_key (timers c ! t)"
  let ?rest = "case t_after (timers c ! t) of None \<Rightarrow> []
               | Some (afterFunc, val) \<Rightarrow> [CallFunc afterFunc val]"
  let ?cT = "c\<lparr>timers := (timers c)[t := (timers c ! t)\<lparr>t_state := Fired\<rparr>]\<rparr>"
  let ?cF = "?cT\<lparr>goroutines := ?G @ [map Send (Delete ?k) @ ?rest]\<rparr>"
  have f: "step (Fire t) c = Inr ?cF"
    using assms by (simp add: timerFunc_def)
  have "run (replicate (length (Delete ?k :: 'a op list)) (Step (length ?G))) ?cF
        = Inr ((call (Delete ?k) ?cF)\<lparr>goroutines := ?G @ [?rest]\<rparr>)"
    by (rule run_goroutine_sends) simp
  then have "run [Step (length ?G), Step (length ?G)] ?cF
        = Inr ((call (Delete ?k) ?cT)\<lparr>goroutines := ?G @ [?rest]\<rparr>)"
    by (simp add: call_goroutines_update) (simp add: Delete_def)
  with f show ?thesis by simp
qed

lemma step_CallFunc:
  "goroutines c = G @ [[CallFunc f v]] \<Longrightarrow>
   step (Step (length G)) c =
     (case f of Returns n \<Rightarrow> Inr (c\<lparr>goroutines := G @ [[]], calls := calls c @ [(f, v)]\<rparr>)
      | Panics n \<Rightarrow> Inl (Panic f v))"
  by (simp split: callback.split)

lemma fired_timer_settled:
  assumes "t < length (timers c)"
  shows "t < length (timers (call (Delete k) (c\<lparr>timers := (timers c)[t := (timers c ! t)\<lparr>t_state := Fired\<rparr>]\<rparr>))) \<and>
         t_state (timers (call (Delete k) (c\<lparr>timers := (timers c)[t := (timers c ! t)\<lparr>t_state := Fired\<rparr>]\<rparr>)) ! t) = Fired"
  using assms
  by (simp add: call_def Delete_def stopTimer_state set_state_state split: option.split)

subsection \<open>Expiry handles along a schedule\<close>












subsection \<open>A key that is left alone\<close>










section \<open>The claims\<close>

subsection \<open>Set followed by a read\<close>


subsection \<open>Set and the handle it finds\<close>




subsection \<open>The value a callback receives\<close>

text \<open>
  C3. \<^verbatim>\<open>Set(k, v, AfterFunc(d, f))\<close> is run from any state, and any schedule follows it. If
  the timer it made is still pending then, its firing followed by its goroutine calls \<open>f\<close>
  with \<open>v\<close>: the call is recorded with \<open>v\<close>, or is the panic of \<open>f\<close> on \<open>v\<close>. What the
  item map holds for \<open>k\<close> at that moment plays no part.
\<close>

theorem AfterFunc_captures_value:
  assumes "run es (call (Set k v [AfterFunc d f]) c) = Inr c'"
    and "t_state (timers c' ! length (timers c)) = Pending"
  shows "case run [Fire (length (timers c)), Step (length (goroutines c')),
                   Step (length (goroutines c')), Step (length (goroutines c'))] c' of
           Inl p \<Rightarrow> p = Panic f v
         | Inr c'' \<Rightarrow> calls c'' = calls c' @ [(f, v)]"
proof -
  let ?t = "length (timers c)" and ?g = "length (goroutines c')"
  let ?c1 = "call (Set k v [AfterFunc d f]) c"
  have t1: "?t < length (timers ?c1)" and k1: "t_key (timers ?c1 ! ?t) = k"
    and a1: "t_after (timers ?c1 ! ?t) = Some (f, v)"
    by (simp_all add: timers_Set_AfterFunc nth_append del: expiryOp.simps)
  from timer_frame_run [OF assms(1) t1] k1 a1
  have t: "?t < length (timers c')" and a: "t_after (timers c' ! ?t) = Some (f, v)"
    by simp_all
  let ?c2 = "(call (Delete (t_key (timers c' ! ?t)))
                (c'\<lparr>timers := (timers c')[?t := (timers c' ! ?t)\<lparr>t_state := Fired\<rparr>]\<rparr>))
             \<lparr>goroutines := goroutines c' @ [[CallFunc f v]]\<rparr>"
  have r2: "run [Fire ?t, Step ?g, Step ?g] c' = Inr ?c2"
    using run_fired_timer [OF t assms(2)] a by simp
  have "run [Fire ?t, Step ?g, Step ?g, Step ?g] c' = run [Step ?g] ?c2"
    using run_append [of "[Fire ?t, Step ?g, Step ?g]" "[Step ?g]" c'] r2 by simp
  also have "\<dots> = (case f of
        Returns n \<Rightarrow> Inr (?c2\<lparr>goroutines := goroutines c' @ [[]], calls := calls ?c2 @ [(f, v)]\<rparr>)
      | Panics n \<Rightarrow> Inl (Panic f v))"
    using step_CallFunc [of ?c2 "goroutines c'" f v] by (simp split: callback.split sum.split)
  finally show ?thesis by (simp split: callback.split)
qed

text \<open>
  An instance: a \<^verbatim>\<open>Set\<close> of the key to 2 has sent its first closure and not yet its write
  when the key is set to 1 with \<^verbatim>\<open>AfterFunc\<close>. The write of 2 lands next, so the item map
  holds 2 when the timer fires. The callback gets 1.
\<close>

theorem AfterFunc_captures_value_witness:
  "\<exists>c c'. run [Go (Set ''k'' (TVal 2) []), Step 0] New = Inr c \<and>
        run [Step 0] (call (Set ''k'' (TVal 1) [AfterFunc 5 (Returns 0)]) c) = Inr c' \<and>
        t_state (timers c' ! 0) = Pending \<and> Get ''k'' c' = TVal (2::int) \<and>
        (\<exists>c''. run [Fire 0, Step 1, Step 1, Step 1] c' = Inr c'' \<and>
               calls c'' = [(Returns 0, TVal 1)])"
proof -
  let ?c = "\<lparr>items = [], expiries = [], timers = [], copies = [],
             goroutines = [[Send (ItemOps (SetItem ''k'' (TVal (2::int))))]], calls = []\<rparr>"
  let ?c1 = "call (Set ''k'' (TVal 1) [AfterFunc 5 (Returns 0)]) ?c"
  let ?c' = "\<lparr>items = [(''k'', TVal (2::int))], expiries = [(''k'', 0)],
              timers = [\<lparr>t_expiry = 5, t_key = ''k'', t_after = Some (Returns 0, TVal 1),
                         t_state = Pending\<rparr>],
              copies = [], goroutines = [[]], calls = []\<rparr>"
  have r0: "run [Go (Set ''k'' (TVal 2) []), Step 0] New = Inr ?c"
    by (simp add: Set_def New_def)
  have r: "run [Step 0] ?c1 = Inr ?c'"
    by (simp add: call_def Set_def stopOld_def)
  have p: "t_state (timers ?c' ! length (timers ?c)) = Pending"
    by simp
  from AfterFunc_captures_value [OF r p]
  have "case run [Fire 0, Step 1, Step 1, Step 1] ?c' of
          Inl p \<Rightarrow> p = Panic (Returns 0) (TVal 1)
        | Inr c'' \<Rightarrow> calls c'' = calls ?c' @ [(Returns 0, TVal 1)]"
    by simp
  moreover have "\<exists>c''. run [Fire 0, Step 1, Step 1, Step 1] ?c' = Inr c''"
    by (simp add: timerFunc_def Delete_def stopTimer_def)
  ultimately have "\<exists>c''. run [Fire 0, Step 1, Step 1, Step 1] ?c' = Inr c'' \<and>
               calls c'' = [(Returns 0, TVal 1)]"
    by auto
  moreover have "t_state (timers ?c' ! 0) = Pending" and "Get ''k'' ?c' = TVal 2"
    by (simp_all add: Get_def)
  ultimately show ?thesis using r0 r by blast
qed

subsection \<open>A callback that panics\<close>

text \<open>
  C4, as claimed, fails: with two keys set to expire, the callback of the first panics and
  the whole run is that panic; the second key's timer never gets to fire. With a callback
  that returns, the same schedule ends with the second key expired.
\<close>

theorem panic_not_isolated:
  "run [Go (Set ''a'' (TVal 1) [AfterFunc 1 (Panics 0)]), Step 0, Step 0, Step 0,
        Go (Set ''b'' (TVal 2) [Expire 1]), Step 1, Step 1, Step 1,
        Fire 0, Step 2, Step 2, Step 2, Fire 1, Step 3, Step 3] New
     = Inl (Panic (Panics 0) (TVal (1::int))) \<and>
   (\<exists>c. run [Go (Set ''a'' (TVal 1) [AfterFunc 1 (Returns 0)]), Step 0, Step 0, Step 0,
        Go (Set ''b'' (TVal 2) [Expire 1]), Step 1, Step 1, Step 1,
        Fire 0, Step 2, Step 2, Step 2, Fire 1, Step 3, Step 3] New = Inr c \<and>
        GetOK ''b'' c = (TNil :: int T, False) \<and> t_state (timers c ! 1) = Fired)"
  by (simp add: Set_def New_def stopOld_def timerFunc_def Delete_def stopTimer_def GetOK_def)

text \<open>
  C4, amended. A pending timer whose callback panics: its goroutine first carries out
  \<^verbatim>\<open>Delete(key)\<close>, leaving both maps as \<^verbatim>\<open>Delete(key)\<close> leaves them, then calls the
  callback; the panic is not recovered, and every schedule that continues from there is
  that panic.
\<close>

theorem panic_ends_process:
  assumes "t < length (timers c)" and "t_state (timers c ! t) = Pending"
    and "t_after (timers c ! t) = Some (Panics n, v)"
  shows "(\<exists>c2. run [Fire t, Step (length (goroutines c)), Step (length (goroutines c))] c = Inr c2 \<and>
               items c2 = items (call (Delete (t_key (timers c ! t))) c) \<and>
               expiries c2 = expiries (call (Delete (t_key (timers c ! t))) c)) \<and>
         run ([Fire t, Step (length (goroutines c)), Step (length (goroutines c)),
               Step (length (goroutines c))] @ es) c = Inl (Panic (Panics n) v)"
proof -
  let ?g = "length (goroutines c)" and ?k = "t_key (timers c ! t)"
  let ?cT = "c\<lparr>timers := (timers c)[t := (timers c ! t)\<lparr>t_state := Fired\<rparr>]\<rparr>"
  let ?c2 = "(call (Delete ?k) ?cT)\<lparr>goroutines := goroutines c @ [[CallFunc (Panics n) v]]\<rparr>"
  have r2: "run [Fire t, Step ?g, Step ?g] c = Inr ?c2"
    using run_fired_timer [OF assms(1,2)] assms(3) by simp
  have maps: "items ?c2 = items (call (Delete ?k) c) \<and> expiries ?c2 = expiries (call (Delete ?k) c)"
    by (simp add: call_def Delete_def split: option.split)
  have "run ([Fire t, Step ?g, Step ?g] @ [Step ?g] @ es) c = run ([Step ?g] @ es) ?c2"
    using run_append [of "[Fire t, Step ?g, Step ?g]" "[Step ?g] @ es" c] r2 by simp
  also have "\<dots> = Inl (Panic (Panics n) v)"
    using step_CallFunc [of ?c2 "goroutines c" "Panics n" v] by simp
  finally show ?thesis using r2 maps by simp
qed

theorem panic_ends_process_witness:
  "run [Fire 0, Step 0, Step 0, Step 0, Fire 1, Step 1, Step 1]
     (call (Set ''b'' (TVal 2) [Expire 1])
        (call (Set ''a'' (TVal 1) [AfterFunc 1 (Panics 0)]) New))
   = Inl (Panic (Panics 0) (TVal (1::int)))"
proof -
  let ?c = "call (Set ''b'' (TVal 2) [Expire 1])
        (call (Set ''a'' (TVal 1) [AfterFunc 1 (Panics 0)]) (New :: int cache))"
  have e: "?c = \<lparr>items = [(''a'', TVal 1), (''b'', TVal 2)], expiries = [(''a'', 0), (''b'', 1)],
       timers = [\<lparr>t_expiry = 1, t_key = ''a'', t_after = Some (Panics 0, TVal 1), t_state = Pending\<rparr>,
                 \<lparr>t_expiry = 1, t_key = ''b'', t_after = None, t_state = Pending\<rparr>],
       copies = [], goroutines = [], calls = []\<rparr>"
    by (simp add: call_def Set_def New_def stopOld_def)
  have "0 < length (timers ?c)" and "t_state (timers ?c ! 0) = Pending"
    and "t_after (timers ?c ! 0) = Some (Panics 0, TVal 1)"
    unfolding e by simp_all
  from panic_ends_process [OF this, of "[Fire 1, Step 1, Step 1]"]
  show ?thesis unfolding e by simp
qed

subsection \<open>Expiry with a callback, on its own\<close>



subsection \<open>Clear\<close>

text \<open>
  C6. \<^verbatim>\<open>Clear()\<close> empties the item map (\<^verbatim>\<open>Keys()\<close> is empty, \<^verbatim>\<open>Size()\<close> is 0, \<^verbatim>\<open>IsEmpty()\<close>
  holds) and leaves the expiry map and every timer as they were. A timer pending before
  \<^verbatim>\<open>Clear()\<close> can still fire after it; its delete then finds no key and the item map stays
  empty.
\<close>

theorem Clear_keeps_expiry_handles:
  "Keys (call Clear c) = [] \<and> Size (call Clear c) = 0 \<and> IsEmpty (call Clear c) \<and>
   expiries (call Clear c) = expiries c \<and> timers (call Clear c) = timers c \<and>
   (\<forall>t. t < length (timers c) \<and> t_state (timers c ! t) = Pending \<longrightarrow>
      (\<exists>c'. run [Fire t, Step (length (goroutines c)), Step (length (goroutines c))]
               (call Clear c) = Inr c' \<and>
            t_state (timers c' ! t) = Fired \<and> items c' = []))"
proof -
  let ?c = "call Clear c"
  have i: "items ?c = []" by (rule items_Clear)
  have e: "expiries ?c = expiries c" and t: "timers ?c = timers c"
    and g: "goroutines ?c = goroutines c"
    by (simp_all add: call_def Clear_def)
  have fire: "\<exists>c'. run [Fire u, Step (length (goroutines c)), Step (length (goroutines c))] ?c
                 = Inr c' \<and> t_state (timers c' ! u) = Fired \<and> items c' = []"
    if "u < length (timers c)" and "t_state (timers c ! u) = Pending" for u
  proof -
    have u: "u < length (timers ?c)" and p: "t_state (timers ?c ! u) = Pending"
      using that t by simp_all
    let ?cT = "?c\<lparr>timers := (timers ?c)[u := (timers ?c ! u)\<lparr>t_state := Fired\<rparr>]\<rparr>"
    have "items (call (Delete (t_key (timers ?c ! u))) ?cT) = []"
      using i by (simp add: call_def Delete_def split: option.split)
    moreover have "t_state (timers (call (Delete (t_key (timers ?c ! u))) ?cT) ! u) = Fired"
      using fired_timer_settled [OF u] by simp
    ultimately show ?thesis
      using run_fired_timer [OF u p] g by simp
  qed
  from i e t fire show ?thesis
    by (simp add: Keys_sort Size_def IsEmpty_def)
qed

theorem Clear_keeps_expiry_handles_witness:
  "t_state (timers (call (Set ''a'' (TVal (1::int)) [Expire 1]) New) ! 0) = Pending \<and>
   GetOK ''a'' (call Clear (call (Set ''a'' (TVal (1::int)) [Expire 1]) New)) = (TNil, False) \<and>
   expiries (call Clear (call (Set ''a'' (TVal (1::int)) [Expire 1]) New)) = [(''a'', 0)] \<and>
   (\<exists>c'. run [Fire 0, Step 0, Step 0]
           (call Clear (call (Set ''a'' (TVal (1::int)) [Expire 1]) New)) = Inr c' \<and>
         t_state (timers c' ! 0) = Fired \<and> items c' = [])"
proof -
  let ?c = "call (Set ''a'' (TVal (1::int)) [Expire 1]) New"
  have e: "?c = \<lparr>items = [(''a'', TVal 1)], expiries = [(''a'', 0)],
       timers = [\<lparr>t_expiry = 1, t_key = ''a'', t_after = None, t_state = Pending\<rparr>],
       copies = [], goroutines = [], calls = []\<rparr>"
    by (simp add: call_def Set_def New_def stopOld_def)
  have p: "0 < length (timers ?c) \<and> t_state (timers ?c ! 0) = Pending"
    unfolding e by simp
  have x: "expiries (call Clear ?c) = [(''a'', 0)]"
    and g: "GetOK ''a'' (call Clear ?c) = (TNil, False)"
    unfolding e by (simp_all add: call_def Clear_def GetOK_def)
  have l: "length (goroutines ?c) = 0" unfolding e by simp
  from Clear_keeps_expiry_handles [of ?c] p
  have "\<exists>c'. run [Fire 0, Step (length (goroutines ?c)), Step (length (goroutines ?c))]
               (call Clear ?c) = Inr c' \<and> t_state (timers c' ! 0) = Fired \<and> items c' = []"
    by blast
  with p x g show ?thesis unfolding l by simp
qed

subsection \<open>Items\<close>

text \<open>
  C7. For an item map with each key once (\<open>distinct_items_run\<close>: every state reached from
  one such has it), \<^verbatim>\<open>Items()\<close> returns a reference to a map that is not the live map and
  that did not exist before; the map holds the mapping of the item map at that moment, and
  the item map itself is unchanged. No later operation run to its end, and no later
  schedule, changes the map behind the returned reference.
\<close>

theorem Items_snapshot:
  assumes "distinct (map fst (items c))" and "Items c = (r, c1)"
  shows "r \<noteq> Live \<and> deref c r = None \<and> items c1 = items c \<and>
         (\<exists>m. deref c1 r = Some m \<and> map_of m = map_of (items c)) \<and>
         (\<forall>p. deref (call p c1) r = deref c1 r) \<and>
         (\<forall>es c2. run es c1 = Inr c2 \<longrightarrow> deref c2 r = deref c1 r)"
proof -
  let ?n = "length (copies c)"
  from assms(2) have r: "r = Copy ?n" and c1: "c1 = itemOp CopyItems c"
    by (simp_all add: Items_def)
  have n: "?n < length (copies c1)" by (simp add: c1)
  have "deref c1 r = Some (copies c1 ! ?n)" using n by (simp add: deref_def r)
  moreover have "map_of (copies c1 ! ?n) = map_of (items c)"
    by (simp add: c1 fold_update_copy [OF assms(1)])
  moreover have "deref (call p c1) r = deref c1 r" for p
    using copies_call [OF n, of p] n by (simp add: deref_def r)
  moreover have "deref c2 r = deref c1 r" if "run es c1 = Inr c2" for es c2
    using copies_run [OF that n] n by (simp add: deref_def r)
  ultimately show ?thesis by (simp add: r deref_def c1)
qed

theorem Items_snapshot_witness:
  "distinct (map fst (items five)) \<and> Items five = (Copy 0, itemOp CopyItems five) \<and>
   deref five (Copy 0) = None \<and>
   deref (itemOp CopyItems five) (Copy 0) = Some (items five) \<and>
   deref (call (Set ''0'' (TVal 7) [] @ Delete ''1'') (itemOp CopyItems five)) (Copy 0)
     = Some (items five) \<and>
   GetOK ''0'' (call (Set ''0'' (TVal 7) [] @ Delete ''1'') (itemOp CopyItems five))
     = (TVal 7, True)"
proof -
  let ?p = "Set ''0'' (TVal 7) [] @ Delete ''1'' :: int op list"
  have d: "distinct (map fst (items five))" by (simp add: five_eq)
  have i: "Items five = (Copy 0, itemOp CopyItems five)" by (simp add: Items_def five_eq)
  have c: "deref (itemOp CopyItems five) (Copy 0) = Some (items five)"
    by (simp add: five_eq deref_def)
  have g: "GetOK ''0'' (call ?p (itemOp CopyItems five)) = (TVal 7, True)"
    by (simp add: five_eq call_def Set_def Delete_def GetOK_def)
  from Items_snapshot [OF d i]
  have "deref five (Copy 0) = None"
    and "deref (call ?p (itemOp CopyItems five)) (Copy 0) = deref (itemOp CopyItems five) (Copy 0)"
    by blast+
  with d i c g show ?thesis by simp
qed

subsection \<open>Keys\<close>

text \<open>
  C8. For an item map with each key once, \<^verbatim>\<open>Keys()\<close> returns the keys present (those for
  which \<^verbatim>\<open>GetOK\<close> reports true), each once, in strictly ascending lexicographic order.
\<close>

theorem Keys_sorted:
  assumes "distinct (map fst (items c))"
  shows "sorted_wrt (<) (Keys c) \<and> (\<forall>k. (k \<in> set (Keys c)) = snd (GetOK k c))"
  using assms by (simp add: Keys_sort strict_sorted_iff snd_GetOK)

text \<open>The keys "0" to "4", set in the order 3, 1, 4, 0, 2, come back as 0, 1, 2, 3, 4.\<close>

theorem Keys_sorted_witness:
  "distinct (map fst (items five)) \<and> sorted_wrt (<) (Keys five) \<and>
   Keys five = [''0'', ''1'', ''2'', ''3'', ''4'']"
proof -
  have d: "distinct (map fst (items five))" by (simp add: five_eq)
  have "Keys five = [''0'', ''1'', ''2'', ''3'', ''4'']" by (simp add: five_eq Keys_def)
  with d Keys_sorted [OF d] show ?thesis by simp
qed

subsection \<open>One handle per key\<close>



end
